theory Spec2Isabelle
  imports Main "HOL-Library.AList"
begin

section \<open>Go channels\<close>

text \<open>
  A Go channel is modelled by the values it buffers, its capacity and whether it has been
  closed. Closing a closed channel and sending on a closed channel panic; a panic that is
  not recovered ends the whole process, so it is a fault of the run.
\<close>

record 'a chan =
  buf :: "'a list"
  cap :: nat
  closed :: bool

datatype fault =
    CloseOfClosedChannel
  | SendOnClosedChannel
  | MakeChanSizeOutOfRange
  | InvalidAddress
  | ActorBlockedForever

text \<open>\<^verbatim>\<open>make(chan T, n)\<close>: a negative size panics.\<close>

definition make_chan :: "int \<Rightarrow> fault + 'a chan" where
  "make_chan n =
     (if n < 0 then Inl MakeChanSizeOutOfRange
      else Inr \<lparr>buf = [], cap = nat n, closed = False\<rparr>)"

text \<open>\<^verbatim>\<open>close(c)\<close>.\<close>

definition close_chan :: "'a chan \<Rightarrow> fault + 'a chan" where
  "close_chan c =
     (if closed c then Inl CloseOfClosedChannel else Inr (c\<lparr>closed := True\<rparr>))"

text \<open>
  One attempt to send without a reader waiting: the value is buffered when there is room.
  With no room a \<^verbatim>\<open>select\<close> takes its \<^verbatim>\<open>default\<close> branch and a plain send
  waits. A channel of capacity 0 has never room: the model covers the moments at which no
  reader is waiting on it.
\<close>

datatype 'a attempt = Sent 'a | Full | Closed

definition send :: "'a chan \<Rightarrow> 'a \<Rightarrow> 'a chan attempt" where
  "send c v =
     (if closed c then Closed
      else if length (buf c) < cap c then Sent (c\<lparr>buf := buf c @ [v]\<rparr>)
      else Full)"

section \<open>Subscriptions and the server\<close>

type_synonym addr = nat

text \<open>
  The interface \<^verbatim>\<open>Repository\<close> is declared outside \<^verbatim>\<open>server.go\<close>; the server
  only calls \<^verbatim>\<open>Replay(channel, lastEventId)\<close> and ranges over the result, so a repository
  is the function giving that finite sequence. The events are a type parameter.
\<close>

type_synonym 'e repository = "string \<Rightarrow> string \<Rightarrow> 'e list"

record 'e subscription =
  channel :: string
  lastEventId :: string
  out :: "'e chan"
  cout :: "string chan"

text \<open>
  The server. The unbuffered inboxes carry no value between two operations, so only their
  being closed is state; \<^verbatim>\<open>unregister\<close> is buffered and keeps its pending pointers.
  \<^verbatim>\<open>subs\<close> and \<^verbatim>\<open>repos\<close> are the locals of \<^verbatim>\<open>run\<close>. A \<^verbatim>\<open>*subscription\<close> is
  an index into \<open>heap\<close>; a set of pointers is a list without repetition, whose order stands
  for the order in which \<^verbatim>\<open>range\<close> visits it (Go leaves that order open, and the
  lemmas on the loops hold for every list). \<open>replays\<close> are the goroutines started with
  \<^verbatim>\<open>go replay(repo, sub)\<close>, each with the events it has still to forward.
\<close>

record 'e server =
  AllowCORS :: bool
  ReplayAll :: bool
  BufferSize :: int
  registrations_closed :: bool
  pub_closed :: bool
  subs_closed :: bool
  comments_closed :: bool
  unregister :: "addr chan"
  quit_closed :: bool
  kill_closed :: bool
  deadChannels :: "string \<Rightarrow> bool"
  dead :: bool
  subs :: "(string \<times> addr list) list"
  repos :: "string \<rightharpoonup> 'e repository"
  heap :: "'e subscription list"
  replays :: "(addr \<times> 'e list) list"

definition NewServer :: "'e server" where
  "NewServer =
     \<lparr>AllowCORS = False, ReplayAll = False, BufferSize = 128,
      registrations_closed = False, pub_closed = False, subs_closed = False,
      comments_closed = False,
      unregister = \<lparr>buf = [], cap = 2, closed = False\<rparr>,
      quit_closed = False, kill_closed = False,
      deadChannels = (\<lambda>c. False), dead = False,
      subs = [], repos = Map.empty, heap = [], replays = []\<rparr>"

text \<open>\<^verbatim>\<open>subs[c]\<close>: a missing key reads as the nil map, which \<^verbatim>\<open>range\<close> does not enter.\<close>

definition subscribers :: "'e server \<Rightarrow> string \<Rightarrow> addr list" where
  "subscribers srv c = (case map_of (subs srv) c of None \<Rightarrow> [] | Some xs \<Rightarrow> xs)"

definition live :: "'e subscription \<Rightarrow> bool" where
  "live s = (\<not> closed (out s) \<and> \<not> closed (cout s))"

definition destroyed :: "'e subscription \<Rightarrow> bool" where
  "destroyed s = (closed (out s) \<and> closed (cout s))"

text \<open>\<^verbatim>\<open>subscription.destroy\<close>.\<close>

definition destroy :: "'e subscription \<Rightarrow> fault + 'e subscription" where
  "destroy s =
     (case close_chan (out s) of
        Inl f \<Rightarrow> Inl f
      | Inr o' \<Rightarrow>
          (case close_chan (cout s) of
             Inl f \<Rightarrow> Inl f
           | Inr c' \<Rightarrow> Inr (s\<lparr>out := o', cout := c'\<rparr>)))"

definition destroy_at :: "addr \<Rightarrow> 'e subscription list \<Rightarrow> fault + 'e subscription list" where
  "destroy_at a h =
     (if a < length h then
        (case destroy (h ! a) of Inl f \<Rightarrow> Inl f | Inr s \<Rightarrow> Inr (h[a := s]))
      else Inl InvalidAddress)"

fun destroy_all :: "addr list \<Rightarrow> 'e subscription list \<Rightarrow> fault + 'e subscription list" where
  "destroy_all [] h = Inr h"
| "destroy_all (a # as) h =
     (case destroy_at a h of Inl f \<Rightarrow> Inl f | Inr h' \<Rightarrow> destroy_all as h')"

section \<open>The cases of \<^verbatim>\<open>Server.run\<close>\<close>

text \<open>\<^verbatim>\<open>case reg := <-srv.registrations\<close>.\<close>

definition run_registrations :: "'e server \<Rightarrow> string \<Rightarrow> 'e repository \<Rightarrow> 'e server" where
  "run_registrations srv c r = srv\<lparr>repos := (repos srv)(c \<mapsto> r)\<rparr>"

text \<open>\<^verbatim>\<open>delete(subs[c], sub)\<close>: nothing happens on the nil map.\<close>

definition delete_sub ::
  "string \<Rightarrow> addr \<Rightarrow> (string \<times> addr list) list \<Rightarrow> (string \<times> addr list) list" where
  "delete_sub c a m =
     (case map_of m c of None \<Rightarrow> m | Some xs \<Rightarrow> AList.update c (removeAll a xs) m)"

text \<open>\<^verbatim>\<open>case sub := <-srv.unregister\<close>, for the pointer received.\<close>

definition run_unregister :: "'e server \<Rightarrow> addr \<Rightarrow> fault + 'e server" where
  "run_unregister srv a =
     (case destroy_at a (heap srv) of
        Inl f \<Rightarrow> Inl f
      | Inr h \<Rightarrow> Inr (srv\<lparr>heap := h, subs := delete_sub (channel (h ! a)) a (subs srv)\<rparr>))"

text \<open>
  \<^verbatim>\<open>srv.unregister <- s\<close> inside \<^verbatim>\<open>run\<close>: a plain send by the only goroutine that
  receives from \<^verbatim>\<open>srv.unregister\<close>. When the buffer is full nobody can make room, and
  the actor waits for ever.
\<close>

definition actor_send_unregister :: "'e server \<Rightarrow> addr \<Rightarrow> fault + 'e server" where
  "actor_send_unregister srv a =
     (case send (unregister srv) a of
        Sent q \<Rightarrow> Inr (srv\<lparr>unregister := q\<rparr>)
      | Full \<Rightarrow> Inl ActorBlockedForever
      | Closed \<Rightarrow> Inl SendOnClosedChannel)"

text \<open>\<^verbatim>\<open>s.out <- pub.event\<close> and \<^verbatim>\<open>s.cout <- cmt.comment\<close> as \<^verbatim>\<open>select\<close> cases.\<close>

definition offer_event :: "'e \<Rightarrow> 'e subscription \<Rightarrow> 'e subscription attempt" where
  "offer_event ev s =
     (case send (out s) ev of
        Sent q \<Rightarrow> Sent (s\<lparr>out := q\<rparr>) | Full \<Rightarrow> Full | Closed \<Rightarrow> Closed)"

definition offer_comment :: "string \<Rightarrow> 'e subscription \<Rightarrow> 'e subscription attempt" where
  "offer_comment cmt s =
     (case send (cout s) cmt of
        Sent q \<Rightarrow> Sent (s\<lparr>cout := q\<rparr>) | Full \<Rightarrow> Full | Closed \<Rightarrow> Closed)"

text \<open>
  The two fan-out loops of \<^verbatim>\<open>run\<close> have the same text but for the queue they write to,
  which is the parameter \<open>offer\<close>. \<open>fan_subs\<close> is \<^verbatim>\<open>for s := range subs[c]\<close> with
  its \<^verbatim>\<open>select\<close>, \<open>fan_channels\<close> is \<^verbatim>\<open>for _, c := range channels\<close>.
\<close>

fun fan_subs ::
  "('e subscription \<Rightarrow> 'e subscription attempt) \<Rightarrow> addr list \<Rightarrow> 'e server \<Rightarrow> fault + 'e server" where
  "fan_subs offer [] srv = Inr srv"
| "fan_subs offer (a # as) srv =
     (if a < length (heap srv) then
        (case offer (heap srv ! a) of
           Sent s \<Rightarrow> fan_subs offer as (srv\<lparr>heap := (heap srv)[a := s]\<rparr>)
         | Full \<Rightarrow>
             (case actor_send_unregister srv a of
                Inl f \<Rightarrow> Inl f
              | Inr srv' \<Rightarrow> fan_subs offer as srv')
         | Closed \<Rightarrow> Inl SendOnClosedChannel)
      else Inl InvalidAddress)"

fun fan_channels ::
  "('e subscription \<Rightarrow> 'e subscription attempt) \<Rightarrow> string list \<Rightarrow> 'e server \<Rightarrow> fault + 'e server" where
  "fan_channels offer [] srv = Inr srv"
| "fan_channels offer (c # cs) srv =
     (case fan_subs offer (subscribers srv c) srv of
        Inl f \<Rightarrow> Inl f
      | Inr srv' \<Rightarrow> fan_channels offer cs srv')"

text \<open>\<^verbatim>\<open>case pub := <-srv.pub\<close> and \<^verbatim>\<open>case cmt := <-srv.comments\<close>.\<close>

definition run_pub :: "'e server \<Rightarrow> string list \<Rightarrow> 'e \<Rightarrow> fault + 'e server" where
  "run_pub srv cs ev = fan_channels (offer_event ev) cs srv"

definition run_comments :: "'e server \<Rightarrow> string list \<Rightarrow> string \<Rightarrow> fault + 'e server" where
  "run_comments srv cs cmt = fan_channels (offer_comment cmt) cs srv"

text \<open>
  \<^verbatim>\<open>case die := <-srv.kill\<close>: every member is destroyed and deleted while the set is
  ranged over, which Go allows; the nil map stays nil.
\<close>

definition run_kill :: "'e server \<Rightarrow> string \<Rightarrow> fault + 'e server" where
  "run_kill srv die =
     (case destroy_all (subscribers srv die) (heap srv) of
        Inl f \<Rightarrow> Inl f
      | Inr h \<Rightarrow>
          Inr (srv\<lparr>heap := h,
                   subs := (case map_of (subs srv) die of
                              None \<Rightarrow> subs srv
                            | Some xs \<Rightarrow> AList.update die [] (subs srv)),
                   deadChannels := (deadChannels srv)(die := True)\<rparr>))"

text \<open>\<^verbatim>\<open>case sub := <-srv.subs\<close>, for the pointer received.\<close>

definition run_subs :: "'e server \<Rightarrow> addr \<Rightarrow> 'e server" where
  "run_subs srv a =
     (let sub = heap srv ! a;
          srv' = srv\<lparr>subs := AList.update (channel sub)
                                (List.insert a (subscribers srv (channel sub))) (subs srv)\<rparr>
      in if ReplayAll srv \<or> length (lastEventId sub) > 0 then
           (case repos srv (channel sub) of
              Some repo \<Rightarrow>
                srv'\<lparr>replays := replays srv @ [(a, repo (channel sub) (lastEventId sub))]\<rparr>
            | None \<Rightarrow> srv')
         else srv')"

text \<open>\<^verbatim>\<open>case <-srv.quit\<close>; \<^verbatim>\<open>run\<close> returns after it.\<close>

definition run_quit :: "'e server \<Rightarrow> fault + 'e server" where
  "run_quit srv =
     (case destroy_all (concat (map snd (subs srv))) (heap srv) of
        Inl f \<Rightarrow> Inl f
      | Inr h \<Rightarrow>
          (if registrations_closed srv \<or> pub_closed srv \<or> comments_closed srv
              \<or> subs_closed srv \<or> closed (unregister srv) \<or> quit_closed srv
              \<or> kill_closed srv
           then Inl CloseOfClosedChannel
           else Inr (srv\<lparr>heap := h,
                         registrations_closed := True, pub_closed := True,
                         comments_closed := True, subs_closed := True,
                         unregister := (unregister srv)\<lparr>closed := True\<rparr>,
                         quit_closed := True, kill_closed := True,
                         dead := True\<rparr>)))"

section \<open>The exported operations\<close>

text \<open>
  Each exported method sends on an unbuffered inbox, which panics once the inbox is
  closed and otherwise completes when \<^verbatim>\<open>run\<close> receives; the model runs the case of
  \<^verbatim>\<open>run\<close> at that point.
\<close>

definition Register :: "'e server \<Rightarrow> string \<Rightarrow> 'e repository \<Rightarrow> fault + 'e server" where
  "Register srv c r =
     (if registrations_closed srv then Inl SendOnClosedChannel
      else Inr (run_registrations srv c r))"

definition Publish :: "'e server \<Rightarrow> string list \<Rightarrow> 'e \<Rightarrow> fault + 'e server" where
  "Publish srv cs ev =
     (if pub_closed srv then Inl SendOnClosedChannel else run_pub srv cs ev)"

definition PublishComment :: "'e server \<Rightarrow> string list \<Rightarrow> string \<Rightarrow> fault + 'e server" where
  "PublishComment srv cs cmt =
     (if comments_closed srv then Inl SendOnClosedChannel else run_comments srv cs cmt)"

definition CloseChannel :: "'e server \<Rightarrow> string \<Rightarrow> fault + 'e server" where
  "CloseChannel srv c =
     (if kill_closed srv then Inl SendOnClosedChannel else run_kill srv c)"

definition Close :: "'e server \<Rightarrow> fault + 'e server" where
  "Close srv = (if quit_closed srv then Inl SendOnClosedChannel else run_quit srv)"

text \<open>
  \<^verbatim>\<open>Server.Handler\<close> up to the moment the subscription has been handed to \<^verbatim>\<open>run\<close>:
  the two plain-text answers, or the new subscription at the address returned.
\<close>

datatype 'e handled =
    NoLongerAvailable
  | HasBeenClosed
  | Streaming "'e server" addr
  | HandlerPanic fault

definition Handler :: "'e server \<Rightarrow> string \<Rightarrow> string \<Rightarrow> 'e handled" where
  "Handler srv c lastId =
     (if dead srv then NoLongerAvailable
      else if deadChannels srv c then HasBeenClosed
      else
        (case make_chan (BufferSize srv) of
           Inl f \<Rightarrow> HandlerPanic f
         | Inr o' \<Rightarrow>
             (case make_chan (BufferSize srv) of
                Inl f \<Rightarrow> HandlerPanic f
              | Inr c' \<Rightarrow>
                  (if subs_closed srv then HandlerPanic SendOnClosedChannel
                   else
                     Streaming
                       (run_subs
                          (srv\<lparr>heap := heap srv
                                  @ [\<lparr>channel = c, lastEventId = lastId, out = o', cout = c'\<rparr>]\<rparr>)
                          (length (heap srv)))
                       (length (heap srv))))))"

section \<open>The goroutines around the actor\<close>

text \<open>
  \<^verbatim>\<open>srv.unregister <- sub\<close> in the handler: with a full buffer the handler waits and
  nothing changes.
\<close>

definition handler_unregister :: "'e server \<Rightarrow> addr \<Rightarrow> fault + 'e server" where
  "handler_unregister srv a =
     (case send (unregister srv) a of
        Sent q \<Rightarrow> Inr (srv\<lparr>unregister := q\<rparr>)
      | Full \<Rightarrow> Inr srv
      | Closed \<Rightarrow> Inl SendOnClosedChannel)"

text \<open>
  \<^verbatim>\<open>run\<close> receives the oldest pending pointer from \<^verbatim>\<open>srv.unregister\<close>. Once
  \<^verbatim>\<open>run\<close> has returned, which is when \<open>dead\<close> is set, nothing is received any more.
\<close>

definition recv_unregister :: "'e server \<Rightarrow> fault + 'e server" where
  "recv_unregister srv =
     (if dead srv then Inr srv
      else
        (case buf (unregister srv) of
           [] \<Rightarrow> Inr srv
         | a # rest \<Rightarrow> run_unregister (srv\<lparr>unregister := (unregister srv)\<lparr>buf := rest\<rparr>\<rparr>) a))"

text \<open>The handler takes the oldest event, or the oldest comment, off its subscription.\<close>

definition handler_recv_out :: "'e server \<Rightarrow> addr \<Rightarrow> 'e server" where
  "handler_recv_out srv a =
     (if a < length (heap srv) then
        srv\<lparr>heap := (heap srv)[a := (heap srv ! a)
                 \<lparr>out := (out (heap srv ! a))\<lparr>buf := tl (buf (out (heap srv ! a)))\<rparr>\<rparr>]\<rparr>
      else srv)"

definition handler_recv_cout :: "'e server \<Rightarrow> addr \<Rightarrow> 'e server" where
  "handler_recv_cout srv a =
     (if a < length (heap srv) then
        srv\<lparr>heap := (heap srv)[a := (heap srv ! a)
                 \<lparr>cout := (cout (heap srv ! a))\<lparr>buf := tl (buf (cout (heap srv ! a)))\<rparr>\<rparr>]\<rparr>
      else srv)"

text \<open>
  One turn of the loop of \<^verbatim>\<open>replay\<close> for the \<open>i\<close>-th replay goroutine:
  \<^verbatim>\<open>sub.out <- ev\<close> is a plain send, which waits while the queue is full and panics
  on a closed queue.
\<close>

definition replay_step :: "'e server \<Rightarrow> nat \<Rightarrow> fault + 'e server" where
  "replay_step srv i =
     (if i < length (replays srv) then
        (case replays srv ! i of
           (a, []) \<Rightarrow> Inr srv
         | (a, ev # rest) \<Rightarrow>
             (if a < length (heap srv) then
                (case offer_event ev (heap srv ! a) of
                   Sent s \<Rightarrow>
                     Inr (srv\<lparr>heap := (heap srv)[a := s],
                              replays := (replays srv)[i := (a, rest)]\<rparr>)
                 | Full \<Rightarrow> Inr srv
                 | Closed \<Rightarrow> Inl SendOnClosedChannel)
              else Inl InvalidAddress))
      else Inr srv)"

section \<open>Runs of the hub\<close>

datatype 'e op =
    SetReplayAll bool
  | SetBufferSize int
  | DoRegister string "'e repository"
  | DoSubscribe string string
  | DoPublish "string list" 'e
  | DoPublishComment "string list" string
  | DoCloseChannel string
  | DoClose
  | HandlerUnregister addr
  | ActorUnregister
  | HandlerRecvOut addr
  | HandlerRecvCout addr
  | ReplayStep nat

fun step :: "'e server \<Rightarrow> 'e op \<Rightarrow> fault + 'e server" where
  "step srv (SetReplayAll b) = Inr (srv\<lparr>ReplayAll := b\<rparr>)"
| "step srv (SetBufferSize n) = Inr (srv\<lparr>BufferSize := n\<rparr>)"
| "step srv (DoRegister c r) = Register srv c r"
| "step srv (DoSubscribe c lastId) =
     (case Handler srv c lastId of
        NoLongerAvailable \<Rightarrow> Inr srv
      | HasBeenClosed \<Rightarrow> Inr srv
      | Streaming srv' a \<Rightarrow> Inr srv'
      | HandlerPanic f \<Rightarrow> Inl f)"
| "step srv (DoPublish cs ev) = Publish srv cs ev"
| "step srv (DoPublishComment cs cmt) = PublishComment srv cs cmt"
| "step srv (DoCloseChannel c) = CloseChannel srv c"
| "step srv DoClose = Close srv"
| "step srv (HandlerUnregister a) = handler_unregister srv a"
| "step srv ActorUnregister = recv_unregister srv"
| "step srv (HandlerRecvOut a) = Inr (handler_recv_out srv a)"
| "step srv (HandlerRecvCout a) = Inr (handler_recv_cout srv a)"
| "step srv (ReplayStep i) = replay_step srv i"

fun exec :: "'e server \<Rightarrow> 'e op list \<Rightarrow> fault + 'e server" where
  "exec srv [] = Inr srv"
| "exec srv (x # xs) = (case step srv x of Inl f \<Rightarrow> Inl f | Inr srv' \<Rightarrow> exec srv' xs)"

text \<open>The state a run from a new server ends in, when it ends without fault.\<close>

definition after :: "'e op list \<Rightarrow> 'e server" where
  "after xs = projr (exec NewServer xs)"

section \<open>What the hub keeps true\<close>

text \<open>
  Two subscriptions are of the same kind when they differ at most in what their queues
  buffer; \<open>hub_frame\<close> relates two servers whose maps, markers and inboxes agree and
  whose subscriptions are of the same kind. \<open>hub_inv\<close> holds of every state a run reaches:
  a hub that is shut down has every inbox closed; otherwise every inbox is open, every
  member of the subscriber set of a channel is a live subscription of that channel, held
  once, and a dead channel has no subscriber.
\<close>

definition same_kind :: "'e subscription \<Rightarrow> 'e subscription \<Rightarrow> bool" where
  "same_kind s s' =
     (channel s' = channel s \<and> lastEventId s' = lastEventId s
      \<and> closed (out s') = closed (out s) \<and> closed (cout s') = closed (cout s))"

definition hub_frame :: "'e server \<Rightarrow> 'e server \<Rightarrow> bool" where
  "hub_frame srv srv' =
     (subs srv' = subs srv \<and> deadChannels srv' = deadChannels srv \<and> dead srv' = dead srv
      \<and> registrations_closed srv' = registrations_closed srv \<and> pub_closed srv' = pub_closed srv
      \<and> subs_closed srv' = subs_closed srv \<and> comments_closed srv' = comments_closed srv
      \<and> quit_closed srv' = quit_closed srv \<and> kill_closed srv' = kill_closed srv
      \<and> closed (unregister srv') = closed (unregister srv)
      \<and> length (heap srv') = length (heap srv)
      \<and> (\<forall>a < length (heap srv). same_kind (heap srv ! a) (heap srv' ! a)))"

definition subs_ok :: "'e server \<Rightarrow> bool" where
  "subs_ok srv =
     (\<forall>c xs. map_of (subs srv) c = Some xs \<longrightarrow>
        distinct xs \<and>
        (\<forall>a \<in> set xs. a < length (heap srv) \<and> channel (heap srv ! a) = c \<and> live (heap srv ! a)))"

definition inboxes_open :: "'e server \<Rightarrow> bool" where
  "inboxes_open srv =
     (\<not> registrations_closed srv \<and> \<not> pub_closed srv \<and> \<not> subs_closed srv
      \<and> \<not> comments_closed srv \<and> \<not> quit_closed srv \<and> \<not> kill_closed srv
      \<and> \<not> closed (unregister srv))"

definition inboxes_shut :: "'e server \<Rightarrow> bool" where
  "inboxes_shut srv =
     (registrations_closed srv \<and> pub_closed srv \<and> subs_closed srv
      \<and> comments_closed srv \<and> quit_closed srv \<and> kill_closed srv
      \<and> closed (unregister srv))"

definition hub_inv :: "'e server \<Rightarrow> bool" where
  "hub_inv srv =
     (if dead srv then inboxes_shut srv
      else inboxes_open srv \<and> subs_ok srv
           \<and> (\<forall>c. deadChannels srv c \<longrightarrow> subscribers srv c = []))"

section \<open>Lemmas\<close>

lemmas run_defs = NewServer_def Handler_def run_subs_def make_chan_def subscribers_def
  Publish_def run_pub_def offer_event_def send_def actor_send_unregister_def
  recv_unregister_def run_unregister_def destroy_at_def destroy_def close_chan_def delete_sub_def
  Close_def run_quit_def handler_unregister_def replay_step_def Register_def run_registrations_def
  CloseChannel_def run_kill_def PublishComment_def run_comments_def offer_comment_def
  handler_recv_out_def handler_recv_cout_def Let_def live_def destroyed_def

lemma same_kind_refl: "same_kind s s"
  by (simp add: same_kind_def)

lemma same_kind_trans: "same_kind s t \<Longrightarrow> same_kind t u \<Longrightarrow> same_kind s u"
  by (simp add: same_kind_def)

lemma hub_frame_refl: "hub_frame srv srv"
  by (simp add: hub_frame_def same_kind_refl)

lemma hub_frame_trans: "hub_frame s t \<Longrightarrow> hub_frame t u \<Longrightarrow> hub_frame s u"
  unfolding hub_frame_def by (auto intro: same_kind_trans)

lemma same_kind_live: "same_kind s s' \<Longrightarrow> live s' = live s"
  by (simp add: same_kind_def live_def)

lemma hub_frame_subscribers: "hub_frame srv srv' \<Longrightarrow> subscribers srv' c = subscribers srv c"
  by (simp add: hub_frame_def subscribers_def)

lemma hub_frame_inv:
  assumes "hub_inv srv" and "hub_frame srv srv'"
  shows "hub_inv srv'"
proof (cases "dead srv")
  case True
  with assms show ?thesis by (simp add: hub_inv_def hub_frame_def inboxes_shut_def)
next
  case False
  with assms(1) have io: "inboxes_open srv" and ok: "subs_ok srv"
    and de: "\<forall>c. deadChannels srv c \<longrightarrow> subscribers srv c = []"
    by (simp_all add: hub_inv_def)
  from io assms(2) have io': "inboxes_open srv'"
    by (simp add: inboxes_open_def hub_frame_def)
  have ok': "subs_ok srv'"
    unfolding subs_ok_def
  proof (intro allI impI conjI ballI)
    fix c xs assume m: "map_of (subs srv') c = Some xs"
    with assms(2) have m0: "map_of (subs srv) c = Some xs" by (simp add: hub_frame_def)
    with ok show "distinct xs" by (simp add: subs_ok_def)
    fix a assume a: "a \<in> set xs"
    with ok m0 have b: "a < length (heap srv)" "channel (heap srv ! a) = c" "live (heap srv ! a)"
      by (auto simp: subs_ok_def)
    from assms(2) b(1) have k: "same_kind (heap srv ! a) (heap srv' ! a)"
      by (simp add: hub_frame_def)
    from assms(2) b(1) show "a < length (heap srv')" by (simp add: hub_frame_def)
    from k b(2) show "channel (heap srv' ! a) = c" by (simp add: same_kind_def)
    from k b(3) show "live (heap srv' ! a)" by (simp add: same_kind_live)
  qed
  from de assms(2) have de': "\<forall>c. deadChannels srv' c \<longrightarrow> subscribers srv' c = []"
    by (simp add: hub_frame_subscribers) (simp add: hub_frame_def)
  from False assms(2) have "\<not> dead srv'" by (simp add: hub_frame_def)
  with io' ok' de' show ?thesis by (simp add: hub_inv_def)
qed

lemma offer_event_kind: "offer_event ev s = Sent s' \<Longrightarrow> same_kind s s'"
  by (auto simp: offer_event_def send_def same_kind_def split: if_splits)

lemma offer_comment_kind: "offer_comment cmt s = Sent s' \<Longrightarrow> same_kind s s'"
  by (auto simp: offer_comment_def send_def same_kind_def split: if_splits)

lemma hub_frame_heap_update:
  assumes "a < length (heap srv)" and "same_kind (heap srv ! a) s"
  shows "hub_frame srv (srv\<lparr>heap := (heap srv)[a := s]\<rparr>)"
  using assms by (auto simp: hub_frame_def nth_list_update same_kind_refl)

lemma actor_send_unregister_frame:
  "actor_send_unregister srv a = Inr srv' \<Longrightarrow> hub_frame srv srv'"
  by (auto simp: actor_send_unregister_def send_def hub_frame_def same_kind_refl
           split: if_splits)

lemma fan_subs_frame:
  assumes "\<And>s s'. offer s = Sent s' \<Longrightarrow> same_kind s s'"
  shows "fan_subs offer as srv = Inr srv' \<Longrightarrow> hub_frame srv srv'"
proof (induction as arbitrary: srv)
  case Nil
  then show ?case by (simp add: hub_frame_refl)
next
  case (Cons a as)
  from Cons.prems have lt: "a < length (heap srv)" by (simp split: if_splits)
  show ?case
  proof (cases "offer (heap srv ! a)")
    case (Sent s)
    with Cons.prems lt have "fan_subs offer as (srv\<lparr>heap := (heap srv)[a := s]\<rparr>) = Inr srv'"
      by simp
    then have "hub_frame (srv\<lparr>heap := (heap srv)[a := s]\<rparr>) srv'" by (rule Cons.IH)
    moreover have "hub_frame srv (srv\<lparr>heap := (heap srv)[a := s]\<rparr>)"
      using lt assms[OF Sent] by (rule hub_frame_heap_update)
    ultimately show ?thesis by (blast intro: hub_frame_trans)
  next
    case Full
    with Cons.prems lt obtain srv1 where s1: "actor_send_unregister srv a = Inr srv1"
      and r: "fan_subs offer as srv1 = Inr srv'"
      by (auto split: sum.splits)
    from r have "hub_frame srv1 srv'" by (rule Cons.IH)
    with actor_send_unregister_frame[OF s1] show ?thesis by (blast intro: hub_frame_trans)
  next
    case Closed
    with Cons.prems lt show ?thesis by simp
  qed
qed

lemma fan_channels_frame:
  assumes "\<And>s s'. offer s = Sent s' \<Longrightarrow> same_kind s s'"
  shows "fan_channels offer cs srv = Inr srv' \<Longrightarrow> hub_frame srv srv'"
proof (induction cs arbitrary: srv)
  case Nil
  then show ?case by (simp add: hub_frame_refl)
next
  case (Cons c cs)
  then obtain srv1 where a: "fan_subs offer (subscribers srv c) srv = Inr srv1"
    and b: "fan_channels offer cs srv1 = Inr srv'"
    by (auto split: sum.splits)
  from fan_subs_frame[OF assms a] Cons.IH[OF b] show ?case by (blast intro: hub_frame_trans)
qed


lemma destroy_live:
  "live s \<Longrightarrow> \<exists>s'. destroy s = Inr s' \<and> destroyed s' \<and> channel s' = channel s
        \<and> lastEventId s' = lastEventId s"
  by (simp add: live_def destroy_def close_chan_def destroyed_def)

lemma destroy_Inr:
  "destroy s = Inr s' \<Longrightarrow> live s \<and> destroyed s' \<and> channel s' = channel s"
  by (auto simp: live_def destroy_def close_chan_def destroyed_def split: if_splits)

lemma destroy_at_Inr:
  "destroy_at a h = Inr h' \<Longrightarrow>
     a < length h \<and> live (h ! a) \<and> length h' = length h \<and> destroyed (h' ! a)
     \<and> channel (h' ! a) = channel (h ! a) \<and> (\<forall>b. b \<noteq> a \<longrightarrow> h' ! b = h ! b)"
  by (auto simp: destroy_at_def split: if_splits sum.splits dest: destroy_Inr)

lemma destroy_at_live:
  "a < length h \<Longrightarrow> live (h ! a) \<Longrightarrow> \<exists>h'. destroy_at a h = Inr h'"
  using destroy_live[of "h ! a"] by (auto simp: destroy_at_def)

lemma destroy_all_live:
  "distinct as \<Longrightarrow> \<forall>a \<in> set as. a < length h \<and> live (h ! a) \<Longrightarrow>
     \<exists>h'. destroy_all as h = Inr h' \<and> length h' = length h
        \<and> (\<forall>a \<in> set as. destroyed (h' ! a) \<and> channel (h' ! a) = channel (h ! a))
        \<and> (\<forall>b. b \<notin> set as \<longrightarrow> h' ! b = h ! b)"
proof (induction as arbitrary: h)
  case Nil
  then show ?case by simp
next
  case (Cons a as)
  from Cons.prems have "a < length h" "live (h ! a)" by simp_all
  then obtain h1 where d: "destroy_at a h = Inr h1" using destroy_at_live by blast
  note p = destroy_at_Inr[OF d]
  from Cons.prems have na: "a \<notin> set as" and di: "distinct as" by simp_all
  have "\<forall>b \<in> set as. b < length h1 \<and> live (h1 ! b)"
    using Cons.prems(2) p na by auto
  from Cons.IH[OF di this] obtain h' where r: "destroy_all as h1 = Inr h'"
    and len: "length h' = length h1"
    and ds: "\<forall>b \<in> set as. destroyed (h' ! b) \<and> channel (h' ! b) = channel (h1 ! b)"
    and fr: "\<forall>b. b \<notin> set as \<longrightarrow> h' ! b = h1 ! b"
    by blast
  have "destroy_all (a # as) h = Inr h'" using d r by simp
  moreover have "length h' = length h" using len p by simp
  moreover have "\<forall>b \<in> set (a # as). destroyed (h' ! b) \<and> channel (h' ! b) = channel (h ! b)"
    using ds fr na p by auto
  moreover have "\<forall>b. b \<notin> set (a # as) \<longrightarrow> h' ! b = h ! b"
    using fr p by auto
  ultimately show ?case by blast
qed

lemma subscribers_Some: "map_of (subs srv) c = Some xs \<Longrightarrow> subscribers srv c = xs"
  by (simp add: subscribers_def)

lemma subs_ok_member:
  "subs_ok srv \<Longrightarrow> a \<in> set (subscribers srv c) \<Longrightarrow>
     a < length (heap srv) \<and> channel (heap srv ! a) = c \<and> live (heap srv ! a)"
proof (cases "map_of (subs srv) c")
  case None
  assume "a \<in> set (subscribers srv c)"
  with None show ?thesis by (simp add: subscribers_def)
next
  case (Some xs)
  assume "subs_ok srv" and "a \<in> set (subscribers srv c)"
  with Some show ?thesis unfolding subs_ok_def by (simp add: subscribers_def)
qed

lemma subs_ok_distinct: "subs_ok srv \<Longrightarrow> distinct (subscribers srv c)"
proof (cases "map_of (subs srv) c")
  case None
  then show ?thesis by (simp add: subscribers_def)
next
  case (Some xs)
  assume "subs_ok srv"
  with Some show ?thesis unfolding subs_ok_def by (simp add: subscribers_def)
qed


lemma hub_inv_NewServer: "hub_inv NewServer"
  by (simp add: hub_inv_def NewServer_def inboxes_open_def subs_ok_def subscribers_def)

lemma map_of_delete_sub:
  "map_of (delete_sub c a m) c' =
     (if c' = c then map_option (removeAll a) (map_of m c) else map_of m c')"
  by (simp add: delete_sub_def update_conv' split: option.splits)

lemma inv_Register: "Register srv c r = Inr srv' \<Longrightarrow> hub_inv srv \<Longrightarrow> hub_inv srv'"
proof -
  assume a: "Register srv c r = Inr srv'" and i: "hub_inv srv"
  from a have "hub_frame srv srv'"
    by (auto simp: Register_def run_registrations_def hub_frame_def same_kind_refl
             split: if_splits)
  with i show ?thesis by (rule hub_frame_inv)
qed

lemma Publish_frame: "Publish srv cs ev = Inr srv' \<Longrightarrow> hub_frame srv srv'"
  unfolding Publish_def run_pub_def
  by (cases "pub_closed srv") (auto intro: fan_channels_frame offer_event_kind)

lemma PublishComment_frame: "PublishComment srv cs cmt = Inr srv' \<Longrightarrow> hub_frame srv srv'"
  unfolding PublishComment_def run_comments_def
  by (cases "comments_closed srv") (auto intro: fan_channels_frame offer_comment_kind)

lemma handler_unregister_frame: "handler_unregister srv a = Inr srv' \<Longrightarrow> hub_frame srv srv'"
  by (auto simp: handler_unregister_def send_def hub_frame_def same_kind_refl
           split: if_splits)

lemma handler_recv_out_frame: "hub_frame srv (handler_recv_out srv a)"
  by (auto simp: handler_recv_out_def hub_frame_refl
           intro!: hub_frame_heap_update simp: same_kind_def)

lemma handler_recv_cout_frame: "hub_frame srv (handler_recv_cout srv a)"
  by (auto simp: handler_recv_cout_def hub_frame_refl
           intro!: hub_frame_heap_update simp: same_kind_def)

lemma replay_step_frame: "replay_step srv i = Inr srv' \<Longrightarrow> hub_frame srv srv'"
proof -
  assume a: "replay_step srv i = Inr srv'"
  show ?thesis
  proof (cases "i < length (replays srv)")
    case False
    with a show ?thesis by (simp add: replay_step_def hub_frame_refl)
  next
    case True
    obtain b evs where p: "replays srv ! i = (b, evs)" by (cases "replays srv ! i")
    show ?thesis
    proof (cases evs)
      case Nil
      with a True p show ?thesis by (simp add: replay_step_def hub_frame_refl)
    next
      case (Cons ev rest)
      with a True p have lt: "b < length (heap srv)"
        by (simp add: replay_step_def split: if_splits)
      show ?thesis
      proof (cases "offer_event ev (heap srv ! b)")
        case (Sent s)
        with a True p Cons lt
        have e: "srv' = srv\<lparr>heap := (heap srv)[b := s], replays := (replays srv)[i := (b, rest)]\<rparr>"
          by (simp add: replay_step_def)
        from offer_event_kind[OF Sent] lt show ?thesis
          unfolding e by (auto simp: hub_frame_def nth_list_update same_kind_refl)
      next
        case Full
        with a True p Cons lt show ?thesis by (simp add: replay_step_def hub_frame_refl)
      next
        case Closed
        with a True p Cons lt show ?thesis by (simp add: replay_step_def)
      qed
    qed
  qed
qed

lemma inv_Close: "Close srv = Inr srv' \<Longrightarrow> hub_inv srv'"
  by (auto simp: Close_def run_quit_def hub_inv_def inboxes_shut_def
           split: if_splits sum.splits)

lemma hub_inv_dead: "hub_inv srv \<Longrightarrow> dead srv \<Longrightarrow> inboxes_shut srv"
  by (simp add: hub_inv_def)


lemma hub_inv_alive:
  "hub_inv srv \<Longrightarrow> \<not> dead srv \<Longrightarrow>
     inboxes_open srv \<and> subs_ok srv \<and> (\<forall>c. deadChannels srv c \<longrightarrow> subscribers srv c = [])"
  by (simp add: hub_inv_def)

lemma run_kill_result:
  assumes ok: "subs_ok srv"
  shows "\<exists>h'. run_kill srv die =
           Inr (srv\<lparr>heap := h',
                    subs := (case map_of (subs srv) die of
                               None \<Rightarrow> subs srv
                             | Some xs \<Rightarrow> AList.update die [] (subs srv)),
                    deadChannels := (deadChannels srv)(die := True)\<rparr>)
         \<and> length h' = length (heap srv)
         \<and> (\<forall>a \<in> set (subscribers srv die). destroyed (h' ! a)
               \<and> channel (h' ! a) = channel (heap srv ! a))
         \<and> (\<forall>b. b \<notin> set (subscribers srv die) \<longrightarrow> h' ! b = heap srv ! b)"
proof -
  have "\<forall>a \<in> set (subscribers srv die). a < length (heap srv) \<and> live (heap srv ! a)"
    using subs_ok_member[OF ok] by blast
  from destroy_all_live[OF subs_ok_distinct[OF ok] this]
  obtain h' where "destroy_all (subscribers srv die) (heap srv) = Inr h'"
    and "length h' = length (heap srv)"
    and "\<forall>a \<in> set (subscribers srv die). destroyed (h' ! a)
               \<and> channel (h' ! a) = channel (heap srv ! a)"
    and "\<forall>b. b \<notin> set (subscribers srv die) \<longrightarrow> h' ! b = heap srv ! b"
    by blast
  then show ?thesis by (intro exI[of _ h']) (simp add: run_kill_def)
qed

lemma subscribers_after_kill:
  "subscribers (srv\<lparr>heap := h',
                    subs := (case map_of (subs srv) die of
                               None \<Rightarrow> subs srv
                             | Some xs \<Rightarrow> AList.update die [] (subs srv)),
                    deadChannels := d\<rparr>) c
   = (if c = die then [] else subscribers srv c)"
  by (simp add: subscribers_def update_conv' split: option.splits)

lemma inv_run_kill:
  assumes i: "hub_inv srv" and nd: "\<not> dead srv" and r: "run_kill srv die = Inr srv'"
  shows "hub_inv srv'"
proof -
  from hub_inv_alive[OF i nd] have io: "inboxes_open srv" and ok: "subs_ok srv"
    and de: "\<forall>c. deadChannels srv c \<longrightarrow> subscribers srv c = []" by simp_all
  from run_kill_result[OF ok, of die] r obtain h' where
    e: "srv' = srv\<lparr>heap := h',
                    subs := (case map_of (subs srv) die of
                               None \<Rightarrow> subs srv
                             | Some xs \<Rightarrow> AList.update die [] (subs srv)),
                    deadChannels := (deadChannels srv)(die := True)\<rparr>"
    and len: "length h' = length (heap srv)"
    and fr: "\<forall>b. b \<notin> set (subscribers srv die) \<longrightarrow> h' ! b = heap srv ! b"
    by auto
  have sb: "\<And>c. subscribers srv' c = (if c = die then [] else subscribers srv c)"
    unfolding e by (rule subscribers_after_kill)
  have io': "inboxes_open srv'" using io by (simp add: e inboxes_open_def)
  have ok': "subs_ok srv'"
    unfolding subs_ok_def
  proof (intro allI impI)
    fix c xs assume m: "map_of (subs srv') c = Some xs"
    show "distinct xs \<and>
        (\<forall>a \<in> set xs. a < length (heap srv') \<and> channel (heap srv' ! a) = c \<and> live (heap srv' ! a))"
    proof (cases "c = die")
      case True
      from m have "subscribers srv' c = xs" by (rule subscribers_Some)
      with sb[of c] True have "xs = []" by simp
      then show ?thesis by simp
    next
      case False
      from m have x: "subscribers srv' c = xs" by (rule subscribers_Some)
      with sb[of c] False have x0: "subscribers srv c = xs" by simp
      have "\<forall>a \<in> set xs. a < length (heap srv') \<and> channel (heap srv' ! a) = c \<and> live (heap srv' ! a)"
      proof
        fix a assume a: "a \<in> set xs"
        with x0 have p: "a < length (heap srv) \<and> channel (heap srv ! a) = c \<and> live (heap srv ! a)"
          using subs_ok_member[OF ok, of a c] by simp
        have "a \<notin> set (subscribers srv die)"
        proof
          assume "a \<in> set (subscribers srv die)"
          from subs_ok_member[OF ok this] p False show False by simp
        qed
        with fr have "h' ! a = heap srv ! a" by simp
        with p len show "a < length (heap srv') \<and> channel (heap srv' ! a) = c \<and> live (heap srv' ! a)"
          by (simp add: e)
      qed
      moreover from x0 have "distinct xs" using subs_ok_distinct[OF ok, of c] by simp
      ultimately show ?thesis by simp
    qed
  qed
  have de': "\<forall>c. deadChannels srv' c \<longrightarrow> subscribers srv' c = []"
  proof (intro allI impI)
    fix c assume d: "deadChannels srv' c"
    show "subscribers srv' c = []"
    proof (cases "c = die")
      case True
      with sb[of c] show ?thesis by simp
    next
      case False
      with d have "deadChannels srv c" by (simp add: e)
      with de sb[of c] False show ?thesis by simp
    qed
  qed
  from nd have "\<not> dead srv'" by (simp add: e)
  with io' ok' de' show ?thesis by (simp add: hub_inv_def)
qed

lemma dead_CloseChannel: "CloseChannel srv c = Inr srv' \<Longrightarrow> dead srv' = dead srv"
  by (auto simp: CloseChannel_def run_kill_def split: if_splits sum.splits)

lemma inv_CloseChannel:
  assumes "CloseChannel srv c = Inr srv'" and "hub_inv srv"
  shows "hub_inv srv'"
proof (cases "dead srv")
  case True
  with assms(2) have "kill_closed srv" by (simp add: hub_inv_def inboxes_shut_def)
  with assms(1) show ?thesis by (simp add: CloseChannel_def)
next
  case False
  from assms(1) have "run_kill srv c = Inr srv'"
    by (simp add: CloseChannel_def split: if_splits)
  with assms(2) False show ?thesis by (blast intro: inv_run_kill)
qed


lemma inv_run_unregister:
  assumes i: "hub_inv srv" and nd: "\<not> dead srv" and r: "run_unregister srv a = Inr srv'"
  shows "hub_inv srv'"
proof -
  from hub_inv_alive[OF i nd] have io: "inboxes_open srv" and ok: "subs_ok srv"
    and de: "\<forall>c. deadChannels srv c \<longrightarrow> subscribers srv c = []" by simp_all
  from r obtain h where d: "destroy_at a (heap srv) = Inr h"
    and e: "srv' = srv\<lparr>heap := h, subs := delete_sub (channel (h ! a)) a (subs srv)\<rparr>"
    by (auto simp: run_unregister_def split: sum.splits)
  note p = destroy_at_Inr[OF d]
  let ?c0 = "channel (heap srv ! a)"
  from p have c0: "channel (h ! a) = ?c0" by simp
  have m': "\<And>c. map_of (subs srv') c =
              (if c = ?c0 then map_option (removeAll a) (map_of (subs srv) ?c0)
               else map_of (subs srv) c)"
    by (simp add: e c0 map_of_delete_sub)
  have io': "inboxes_open srv'" using io by (simp add: e inboxes_open_def)
  have ok': "subs_ok srv'"
    unfolding subs_ok_def
  proof (intro allI impI)
    fix c xs assume m: "map_of (subs srv') c = Some xs"
    show "distinct xs \<and>
        (\<forall>b \<in> set xs. b < length (heap srv') \<and> channel (heap srv' ! b) = c \<and> live (heap srv' ! b))"
    proof (cases "c = ?c0")
      case True
      with m m'[of c] have "map_option (removeAll a) (map_of (subs srv) c) = Some xs"
        by simp
      then obtain ys where y: "map_of (subs srv) c = Some ys"
        and x: "xs = removeAll a ys" by (cases "map_of (subs srv) c") auto
      from y ok have dy: "distinct ys"
        and my: "\<forall>b \<in> set ys. b < length (heap srv) \<and> channel (heap srv ! b) = c \<and> live (heap srv ! b)"
        unfolding subs_ok_def by blast+
      have "\<forall>b \<in> set xs. b < length (heap srv') \<and> channel (heap srv' ! b) = c \<and> live (heap srv' ! b)"
      proof
        fix b assume "b \<in> set xs"
        with x have b: "b \<in> set ys" "b \<noteq> a" by auto
        with p have "h ! b = heap srv ! b" by simp
        with my b(1) p show "b < length (heap srv') \<and> channel (heap srv' ! b) = c \<and> live (heap srv' ! b)"
          by (simp add: e)
      qed
      with dy x show ?thesis by (simp add: distinct_removeAll)
    next
      case False
      with m m'[of c] have y: "map_of (subs srv) c = Some xs" by simp
      from y ok have dy: "distinct xs"
        and my: "\<forall>b \<in> set xs. b < length (heap srv) \<and> channel (heap srv ! b) = c \<and> live (heap srv ! b)"
        unfolding subs_ok_def by blast+
      have "\<forall>b \<in> set xs. b < length (heap srv') \<and> channel (heap srv' ! b) = c \<and> live (heap srv' ! b)"
      proof
        fix b assume b: "b \<in> set xs"
        with my False have "b \<noteq> a" by auto
        with p have "h ! b = heap srv ! b" by simp
        with my b p show "b < length (heap srv') \<and> channel (heap srv' ! b) = c \<and> live (heap srv' ! b)"
          by (simp add: e)
      qed
      with dy show ?thesis by simp
    qed
  qed
  have de': "\<forall>c. deadChannels srv' c \<longrightarrow> subscribers srv' c = []"
  proof (intro allI impI)
    fix c assume "deadChannels srv' c"
    then have "deadChannels srv c" by (simp add: e)
    with de have "subscribers srv c = []" by simp
    then show "subscribers srv' c = []"
      using m'[of c] by (auto simp: subscribers_def split: option.splits)
  qed
  from nd have "\<not> dead srv'" by (simp add: e)
  with io' ok' de' show ?thesis by (simp add: hub_inv_def)
qed

lemma inv_recv_unregister:
  assumes "recv_unregister srv = Inr srv'" and "hub_inv srv"
  shows "hub_inv srv'"
proof (cases "dead srv")
  case True
  with assms show ?thesis by (simp add: recv_unregister_def)
next
  case False
  show ?thesis
  proof (cases "buf (unregister srv)")
    case Nil
    with assms False show ?thesis by (simp add: recv_unregister_def)
  next
    case (Cons a rest)
    let ?s = "srv\<lparr>unregister := (unregister srv)\<lparr>buf := rest\<rparr>\<rparr>"
    have "hub_frame srv ?s" by (simp add: hub_frame_def same_kind_refl)
    with assms(2) have "hub_inv ?s" by (rule hub_frame_inv)
    moreover have "\<not> dead ?s" using False by simp
    moreover from assms(1) False Cons have "run_unregister ?s a = Inr srv'"
      by (simp add: recv_unregister_def)
    ultimately show ?thesis by (rule inv_run_unregister)
  qed
qed

lemma run_subs_fields:
  "subs (run_subs srv a) =
     AList.update (channel (heap srv ! a))
       (List.insert a (subscribers srv (channel (heap srv ! a)))) (subs srv)"
  "heap (run_subs srv a) = heap srv"
  "deadChannels (run_subs srv a) = deadChannels srv"
  "dead (run_subs srv a) = dead srv"
  "inboxes_open (run_subs srv a) = inboxes_open srv"
  "repos (run_subs srv a) = repos srv"
  "unregister (run_subs srv a) = unregister srv"
  by (simp_all add: run_subs_def Let_def inboxes_open_def split: option.splits)

lemma Handler_Streaming:
  assumes "Handler srv c lastId = Streaming srv' a"
  shows "\<not> dead srv" and "\<not> deadChannels srv c" and "0 \<le> BufferSize srv"
    and "\<not> subs_closed srv" and "a = length (heap srv)"
    and "srv' = run_subs
           (srv\<lparr>heap := heap srv @
              [\<lparr>channel = c, lastEventId = lastId,
                out = \<lparr>buf = [], cap = nat (BufferSize srv), closed = False\<rparr>,
                cout = \<lparr>buf = [], cap = nat (BufferSize srv), closed = False\<rparr>\<rparr>]\<rparr>)
           (length (heap srv))"
  using assms by (auto simp: Handler_def make_chan_def split: if_splits)

lemma inv_Handler:
  assumes h: "Handler srv c lastId = Streaming srv' a" and i: "hub_inv srv"
  shows "hub_inv srv'"
proof -
  note f = Handler_Streaming[OF h]
  from hub_inv_alive[OF i f(1)] have io: "inboxes_open srv" and ok: "subs_ok srv"
    and de: "\<forall>c. deadChannels srv c \<longrightarrow> subscribers srv c = []" by simp_all
  let ?new = "\<lparr>channel = c, lastEventId = lastId,
                out = \<lparr>buf = [], cap = nat (BufferSize srv), closed = False\<rparr>,
                cout = \<lparr>buf = ([]::string list), cap = nat (BufferSize srv), closed = False\<rparr>\<rparr>"
  let ?s1 = "srv\<lparr>heap := heap srv @ [?new]\<rparr>"
  have e: "srv' = run_subs ?s1 a" using f(5,6) by simp
  have ch: "channel (heap ?s1 ! a) = c" by (simp add: f(5))
  have s1: "subscribers ?s1 = subscribers srv" by (simp add: subscribers_def fun_eq_iff)
  have hp: "heap srv' = heap srv @ [?new]" by (simp add: e run_subs_fields)
  have m': "\<And>c'. map_of (subs srv') c' =
              (if c' = c then Some (List.insert a (subscribers srv c)) else map_of (subs srv) c')"
    unfolding e run_subs_fields ch s1 by (simp add: update_conv')
  have "inboxes_open ?s1" using io by (simp add: inboxes_open_def)
  then have io': "inboxes_open srv'" by (simp only: e run_subs_fields)
  have old: "\<And>b c'. b \<in> set (subscribers srv c') \<Longrightarrow>
      b < length (heap srv') \<and> channel (heap srv' ! b) = c' \<and> live (heap srv' ! b)"
  proof -
    fix b c' assume "b \<in> set (subscribers srv c')"
    from subs_ok_member[OF ok this]
    show "b < length (heap srv') \<and> channel (heap srv' ! b) = c' \<and> live (heap srv' ! b)"
      by (simp add: hp nth_append)
  qed
  have ok': "subs_ok srv'"
    unfolding subs_ok_def
  proof (intro allI impI)
    fix c' xs assume m: "map_of (subs srv') c' = Some xs"
    show "distinct xs \<and>
        (\<forall>b \<in> set xs. b < length (heap srv') \<and> channel (heap srv' ! b) = c' \<and> live (heap srv' ! b))"
    proof (cases "c' = c")
      case True
      with m m'[of c'] have x: "xs = List.insert a (subscribers srv c)" by simp
      have "\<forall>b \<in> set xs. b < length (heap srv') \<and> channel (heap srv' ! b) = c' \<and> live (heap srv' ! b)"
      proof
        fix b assume "b \<in> set xs"
        with x have "b = a \<or> b \<in> set (subscribers srv c)" by auto
        then show "b < length (heap srv') \<and> channel (heap srv' ! b) = c' \<and> live (heap srv' ! b)"
        proof
          assume "b = a"
          then show ?thesis by (simp add: hp f(5) True live_def)
        next
          assume "b \<in> set (subscribers srv c)"
          from old[OF this] True show ?thesis by simp
        qed
      qed
      moreover have "distinct xs" using subs_ok_distinct[OF ok, of c] x by simp
      ultimately show ?thesis by simp
    next
      case False
      with m m'[of c'] have "map_of (subs srv) c' = Some xs" by simp
      then have x: "subscribers srv c' = xs" by (rule subscribers_Some)
      with old[of _ c'] subs_ok_distinct[OF ok, of c'] show ?thesis by auto
    qed
  qed
  have de': "\<forall>c'. deadChannels srv' c' \<longrightarrow> subscribers srv' c' = []"
  proof (intro allI impI)
    fix c' assume "deadChannels srv' c'"
    then have d: "deadChannels srv c'" by (simp add: e run_subs_fields)
    with f(2) have "c' \<noteq> c" by auto
    with m'[of c'] have "subscribers srv' c' = subscribers srv c'" by (simp add: subscribers_def)
    with de d show "subscribers srv' c' = []" by simp
  qed
  from f(1) have "\<not> dead srv'" by (simp add: e run_subs_fields)
  with io' ok' de' show ?thesis by (simp add: hub_inv_def)
qed

lemma inv_step: "step srv x = Inr srv' \<Longrightarrow> hub_inv srv \<Longrightarrow> hub_inv srv'"
proof (cases x)
  case (SetReplayAll b)
  assume "step srv x = Inr srv'" "hub_inv srv"
  with SetReplayAll show ?thesis
    by (auto intro!: hub_frame_inv[of srv] simp: hub_frame_def same_kind_refl)
next
  case (SetBufferSize n)
  assume "step srv x = Inr srv'" "hub_inv srv"
  with SetBufferSize show ?thesis
    by (auto intro!: hub_frame_inv[of srv] simp: hub_frame_def same_kind_refl)
next
  case (DoRegister c r)
  assume "step srv x = Inr srv'" "hub_inv srv"
  with DoRegister show ?thesis by (auto intro: inv_Register)
next
  case (DoSubscribe c lastId)
  assume "step srv x = Inr srv'" "hub_inv srv"
  with DoSubscribe show ?thesis
    by (cases "Handler srv c lastId") (auto intro: inv_Handler)
next
  case (DoPublish cs ev)
  assume "step srv x = Inr srv'" "hub_inv srv"
  with DoPublish show ?thesis by (auto intro: hub_frame_inv Publish_frame)
next
  case (DoPublishComment cs cmt)
  assume "step srv x = Inr srv'" "hub_inv srv"
  with DoPublishComment show ?thesis by (auto intro: hub_frame_inv PublishComment_frame)
next
  case (DoCloseChannel c)
  assume "step srv x = Inr srv'" "hub_inv srv"
  with DoCloseChannel show ?thesis by (auto intro: inv_CloseChannel)
next
  case DoClose
  assume "step srv x = Inr srv'" "hub_inv srv"
  with DoClose show ?thesis by (auto intro: inv_Close)
next
  case (HandlerUnregister a)
  assume "step srv x = Inr srv'" "hub_inv srv"
  with HandlerUnregister show ?thesis by (auto intro: hub_frame_inv handler_unregister_frame)
next
  case ActorUnregister
  assume "step srv x = Inr srv'" "hub_inv srv"
  with ActorUnregister show ?thesis by (auto intro: inv_recv_unregister)
next
  case (HandlerRecvOut a)
  assume "step srv x = Inr srv'" "hub_inv srv"
  with HandlerRecvOut show ?thesis by (auto intro: hub_frame_inv handler_recv_out_frame)
next
  case (HandlerRecvCout a)
  assume "step srv x = Inr srv'" "hub_inv srv"
  with HandlerRecvCout show ?thesis by (auto intro: hub_frame_inv handler_recv_cout_frame)
next
  case (ReplayStep i)
  assume "step srv x = Inr srv'" "hub_inv srv"
  with ReplayStep show ?thesis by (auto intro: hub_frame_inv replay_step_frame)
qed

lemma inv_exec: "exec srv xs = Inr srv' \<Longrightarrow> hub_inv srv \<Longrightarrow> hub_inv srv'"
proof (induction xs arbitrary: srv)
  case Nil
  then show ?case by simp
next
  case (Cons x xs)
  from Cons.prems(1) obtain s1 where a: "step srv x = Inr s1" and b: "exec s1 xs = Inr srv'"
    by (auto split: sum.splits)
  from inv_step[OF a Cons.prems(2)] show ?case by (rule Cons.IH[OF b])
qed

lemma reachable_inv: "exec NewServer xs = Inr srv \<Longrightarrow> hub_inv srv"
  using hub_inv_NewServer by (rule inv_exec[rotated])

lemma fan_subs_untouched:
  "fan_subs offer as srv = Inr srv' \<Longrightarrow> b \<notin> set as \<Longrightarrow> heap srv' ! b = heap srv ! b"
proof (induction as arbitrary: srv)
  case Nil
  then show ?case by simp
next
  case (Cons a as)
  from Cons.prems have lt: "a < length (heap srv)" and ne: "b \<noteq> a" and nb: "b \<notin> set as"
    by (simp_all split: if_splits)
  show ?case
  proof (cases "offer (heap srv ! a)")
    case (Sent s)
    with Cons.prems lt have "fan_subs offer as (srv\<lparr>heap := (heap srv)[a := s]\<rparr>) = Inr srv'"
      by simp
    from Cons.IH[OF this nb] ne show ?thesis by simp
  next
    case Full
    with Cons.prems lt obtain srv1 where s1: "actor_send_unregister srv a = Inr srv1"
      and r: "fan_subs offer as srv1 = Inr srv'"
      by (auto split: sum.splits)
    from s1 have "heap srv1 = heap srv"
      by (auto simp: actor_send_unregister_def split: attempt.splits)
    with Cons.IH[OF r nb] show ?thesis by simp
  next
    case Closed
    with Cons.prems lt show ?thesis by simp
  qed
qed

lemma fan_subs_field:
  assumes "\<And>s s'. offer s = Sent s' \<Longrightarrow> f s' = f s"
  shows "fan_subs offer as srv = Inr srv' \<Longrightarrow> f (heap srv' ! b) = f (heap srv ! b)"
proof (induction as arbitrary: srv)
  case Nil
  then show ?case by simp
next
  case (Cons a as)
  from Cons.prems have lt: "a < length (heap srv)" by (simp split: if_splits)
  show ?case
  proof (cases "offer (heap srv ! a)")
    case (Sent s)
    with Cons.prems lt have "fan_subs offer as (srv\<lparr>heap := (heap srv)[a := s]\<rparr>) = Inr srv'"
      by simp
    from Cons.IH[OF this] assms[OF Sent] lt show ?thesis
      by (cases "b = a") simp_all
  next
    case Full
    with Cons.prems lt obtain srv1 where s1: "actor_send_unregister srv a = Inr srv1"
      and r: "fan_subs offer as srv1 = Inr srv'"
      by (auto split: sum.splits)
    from s1 have "heap srv1 = heap srv"
      by (auto simp: actor_send_unregister_def split: attempt.splits)
    with Cons.IH[OF r] show ?thesis by simp
  next
    case Closed
    with Cons.prems lt show ?thesis by simp
  qed
qed

lemma fan_channels_untouched:
  assumes "\<And>s s'. offer s = Sent s' \<Longrightarrow> same_kind s s'"
  shows "fan_channels offer cs srv = Inr srv' \<Longrightarrow>
         \<forall>c \<in> set cs. b \<notin> set (subscribers srv c) \<Longrightarrow> heap srv' ! b = heap srv ! b"
proof (induction cs arbitrary: srv)
  case Nil
  then show ?case by simp
next
  case (Cons c cs)
  then obtain srv1 where a: "fan_subs offer (subscribers srv c) srv = Inr srv1"
    and r: "fan_channels offer cs srv1 = Inr srv'"
    by (auto split: sum.splits)
  from Cons.prems(2) have "b \<notin> set (subscribers srv c)" by simp
  with a have h1: "heap srv1 ! b = heap srv ! b" by (rule fan_subs_untouched)
  have "\<forall>c \<in> set cs. b \<notin> set (subscribers srv1 c)"
    using Cons.prems(2) hub_frame_subscribers[OF fan_subs_frame[OF assms a]] by simp
  from Cons.IH[OF r this] h1 show ?case by simp
qed

lemma fan_channels_field:
  assumes "\<And>s s'. offer s = Sent s' \<Longrightarrow> f s' = f s"
  shows "fan_channels offer cs srv = Inr srv' \<Longrightarrow> f (heap srv' ! b) = f (heap srv ! b)"
proof (induction cs arbitrary: srv)
  case Nil
  then show ?case by simp
next
  case (Cons c cs)
  then obtain srv1 where a: "fan_subs offer (subscribers srv c) srv = Inr srv1"
    and r: "fan_channels offer cs srv1 = Inr srv'"
    by (auto split: sum.splits)
  from fan_subs_field[of offer f, OF assms a] Cons.IH[OF r] show ?case by simp
qed

lemma offer_event_cout: "offer_event ev s = Sent s' \<Longrightarrow> cout s' = cout s"
  by (auto simp: offer_event_def split: attempt.splits)


lemma reachable_member:
  assumes "exec NewServer xs = Inr srv" and "\<not> dead srv" and "a \<in> set (subscribers srv c)"
  shows "a < length (heap srv) \<and> channel (heap srv ! a) = c \<and> live (heap srv ! a)"
proof -
  have "hub_inv srv" using assms(1) by (rule reachable_inv)
  from hub_inv_alive[OF this assms(2)] have "subs_ok srv" by simp
  from subs_ok_member[OF this assms(3)] show ?thesis .
qed

lemma reachable_Publish_alive:
  assumes "exec NewServer xs = Inr srv" and "Publish srv cs ev = Inr srv'"
  shows "\<not> dead srv"
proof
  assume d: "dead srv"
  have "hub_inv srv" using assms(1) by (rule reachable_inv)
  from hub_inv_dead[OF this d] have "pub_closed srv" by (simp add: inboxes_shut_def)
  with assms(2) show False by (simp add: Publish_def)
qed





section \<open>Repeated teardown, the hub after Close, and the fan-out\<close>

lemma run_unregister_twice:
  assumes "run_unregister srv a = Inr srv'"
  shows "run_unregister srv' a = Inl CloseOfClosedChannel"
proof -
  from assms obtain h where d: "destroy_at a (heap srv) = Inr h" and e: "heap srv' = h"
    by (auto simp: run_unregister_def split: sum.splits)
  from destroy_at_Inr[OF d] have "a < length h" "closed (out (h ! a))"
    by (simp_all add: destroyed_def)
  then show ?thesis
    by (simp add: run_unregister_def destroy_at_def destroy_def close_chan_def e)
qed

lemma after_Close_sends_panic:
  assumes "Close srv = Inr srv'"
  shows "dead srv'"
    and "Handler srv' c lastId = NoLongerAvailable"
    and "Publish srv' cs ev = Inl SendOnClosedChannel"
    and "PublishComment srv' cs cmt = Inl SendOnClosedChannel"
    and "Register srv' c r = Inl SendOnClosedChannel"
    and "CloseChannel srv' c = Inl SendOnClosedChannel"
    and "Close srv' = Inl SendOnClosedChannel"
    and "handler_unregister srv' a = Inl SendOnClosedChannel"
  using assms
  by (auto simp: Close_def run_quit_def Handler_def Publish_def PublishComment_def
        Register_def CloseChannel_def handler_unregister_def send_def
      split: if_splits sum.splits)

lemma replay_step_destroyed:
  assumes "i < length (replays srv)" and "replays srv ! i = (a, ev # rest)"
    and "a < length (heap srv)" and "closed (out (heap srv ! a))"
  shows "replay_step srv i = Inl SendOnClosedChannel"
  using assms by (simp add: replay_step_def offer_event_def send_def)

lemma frame_dead: "hub_frame srv srv' \<Longrightarrow> dead srv' = dead srv"
  by (simp add: hub_frame_def)

lemma step_dead:
  assumes "step srv x = Inr srv'" and "dead srv"
  shows "dead srv'"
proof (cases x)
  case (SetReplayAll b)
  with assms show ?thesis by auto
next
  case (SetBufferSize n)
  with assms show ?thesis by auto
next
  case (DoRegister c' r)
  with assms show ?thesis
    by (auto simp: Register_def run_registrations_def split: if_splits)
next
  case (DoSubscribe c' lastId)
  with assms show ?thesis
    by (cases "Handler srv c' lastId") (auto dest: Handler_Streaming(1))
next
  case (DoPublish cs ev)
  with assms show ?thesis by (auto dest!: Publish_frame frame_dead)
next
  case (DoPublishComment cs cmt)
  with assms show ?thesis by (auto dest!: PublishComment_frame frame_dead)
next
  case (DoCloseChannel c')
  with assms show ?thesis
    by (auto simp: CloseChannel_def run_kill_def split: if_splits sum.splits)
next
  case DoClose
  with assms show ?thesis
    by (auto simp: Close_def run_quit_def split: if_splits sum.splits)
next
  case (HandlerUnregister a)
  with assms show ?thesis by (auto dest!: handler_unregister_frame frame_dead)
next
  case ActorUnregister
  with assms show ?thesis by (auto simp: recv_unregister_def)
next
  case (HandlerRecvOut a)
  with assms show ?thesis
    using frame_dead[OF handler_recv_out_frame, of srv a] by auto
next
  case (HandlerRecvCout a)
  with assms show ?thesis
    using frame_dead[OF handler_recv_cout_frame, of srv a] by auto
next
  case (ReplayStep i)
  with assms show ?thesis by (auto dest!: replay_step_frame frame_dead)
qed

lemma exec_dead: "exec srv xs = Inr srv' \<Longrightarrow> dead srv \<Longrightarrow> dead srv'"
proof (induction xs arbitrary: srv)
  case Nil
  then show ?case by simp
next
  case (Cons x xs)
  from Cons.prems(1) obtain s1 where a: "step srv x = Inr s1" and b: "exec s1 xs = Inr srv'"
    by (auto split: sum.splits)
  from step_dead[OF a Cons.prems(2)] show ?case by (rule Cons.IH[OF b])
qed

text \<open>
  The fan-out over one subscriber set makes one attempt per subscriber: the value is
  appended to the queue, or the queue is left as it was and the subscriber is in the
  buffer of \<^verbatim>\<open>srv.unregister\<close>. It returns when that buffer has room for every
  subscriber of the set.
\<close>

lemma actor_send_unregister_Inr:
  "actor_send_unregister srv a = Inr srv' \<Longrightarrow>
     heap srv' = heap srv \<and> buf (unregister srv') = buf (unregister srv) @ [a]"
  by (auto simp: actor_send_unregister_def send_def split: if_splits)

lemma fan_subs_unregister_grows:
  "fan_subs offer as srv = Inr srv' \<Longrightarrow>
     \<exists>more. buf (unregister srv') = buf (unregister srv) @ more"
proof (induction as arbitrary: srv)
  case Nil
  then show ?case by simp
next
  case (Cons a as)
  from Cons.prems have lt: "a < length (heap srv)" by (simp split: if_splits)
  show ?case
  proof (cases "offer (heap srv ! a)")
    case (Sent s)
    with Cons.prems lt have "fan_subs offer as (srv\<lparr>heap := (heap srv)[a := s]\<rparr>) = Inr srv'"
      by simp
    from Cons.IH[OF this] show ?thesis by simp
  next
    case Full
    with Cons.prems lt obtain srv1 where s1: "actor_send_unregister srv a = Inr srv1"
      and r: "fan_subs offer as srv1 = Inr srv'"
      by (auto split: sum.splits)
    from Cons.IH[OF r] actor_send_unregister_Inr[OF s1] show ?thesis by auto
  next
    case Closed
    with Cons.prems lt show ?thesis by simp
  qed
qed

lemma fan_subs_no_silent_drop:
  "fan_subs offer as srv = Inr srv' \<Longrightarrow> distinct as \<Longrightarrow> a \<in> set as \<Longrightarrow>
     offer (heap srv ! a) = Sent (heap srv' ! a)
     \<or> (offer (heap srv ! a) = Full \<and> heap srv' ! a = heap srv ! a
        \<and> a \<in> set (buf (unregister srv')))"
proof (induction as arbitrary: srv)
  case Nil
  then show ?case by simp
next
  case (Cons b bs)
  from Cons.prems have lt: "b < length (heap srv)" and nb: "b \<notin> set bs" and di: "distinct bs"
    by (simp_all split: if_splits)
  show ?case
  proof (cases "offer (heap srv ! b)")
    case (Sent s)
    with Cons.prems lt have r: "fan_subs offer bs (srv\<lparr>heap := (heap srv)[b := s]\<rparr>) = Inr srv'"
      by simp
    show ?thesis
    proof (cases "a = b")
      case True
      from fan_subs_untouched[OF r nb] lt have "heap srv' ! b = s" by simp
      with Sent True show ?thesis by simp
    next
      case False
      with Cons.prems(3) have "a \<in> set bs" by simp
      from Cons.IH[OF r di this] False show ?thesis by simp
    qed
  next
    case Full
    with Cons.prems lt obtain srv1 where s1: "actor_send_unregister srv b = Inr srv1"
      and r: "fan_subs offer bs srv1 = Inr srv'"
      by (auto split: sum.splits)
    note u = actor_send_unregister_Inr[OF s1]
    show ?thesis
    proof (cases "a = b")
      case True
      from fan_subs_untouched[OF r nb] u have "heap srv' ! b = heap srv ! b" by simp
      moreover from fan_subs_unregister_grows[OF r] u have "b \<in> set (buf (unregister srv'))"
        by auto
      ultimately show ?thesis using Full True by simp
    next
      case False
      with Cons.prems(3) have "a \<in> set bs" by simp
      from Cons.IH[OF r di this] u show ?thesis by simp
    qed
  next
    case Closed
    with Cons.prems lt show ?thesis by simp
  qed
qed

lemma fan_subs_room:
  assumes lv: "\<And>s. live s \<Longrightarrow> offer s \<noteq> Closed"
  shows "(\<forall>a \<in> set as. a < length (heap srv) \<and> live (heap srv ! a)) \<Longrightarrow> distinct as \<Longrightarrow>
     \<not> closed (unregister srv) \<Longrightarrow>
     length (buf (unregister srv)) + length as \<le> cap (unregister srv) \<Longrightarrow>
     \<exists>srv'. fan_subs offer as srv = Inr srv'"
proof (induction as arbitrary: srv)
  case Nil
  then show ?case by simp
next
  case (Cons b bs)
  from Cons.prems have lt: "b < length (heap srv)" and lb: "live (heap srv ! b)"
    and nb: "b \<notin> set bs" and di: "distinct bs" by simp_all
  show ?case
  proof (cases "offer (heap srv ! b)")
    case (Sent s)
    let ?s1 = "srv\<lparr>heap := (heap srv)[b := s]\<rparr>"
    have "\<forall>a \<in> set bs. a < length (heap ?s1) \<and> live (heap ?s1 ! a)"
    proof
      fix a assume a: "a \<in> set bs"
      with nb have "a \<noteq> b" by auto
      with Cons.prems(1) a show "a < length (heap ?s1) \<and> live (heap ?s1 ! a)" by simp
    qed
    moreover have "\<not> closed (unregister ?s1)" using Cons.prems(3) by simp
    moreover have "length (buf (unregister ?s1)) + length bs \<le> cap (unregister ?s1)"
      using Cons.prems(4) by simp
    ultimately have "\<exists>srv'. fan_subs offer bs ?s1 = Inr srv'"
      using di by (intro Cons.IH) auto
    with Sent lt show ?thesis by simp
  next
    case Full
    let ?s1 = "srv\<lparr>unregister := (unregister srv)\<lparr>buf := buf (unregister srv) @ [b]\<rparr>\<rparr>"
    from Cons.prems(3,4) have s1: "actor_send_unregister srv b = Inr ?s1"
      by (simp add: actor_send_unregister_def send_def)
    have "\<forall>a \<in> set bs. a < length (heap ?s1) \<and> live (heap ?s1 ! a)"
      using Cons.prems(1) by auto
    moreover have "\<not> closed (unregister ?s1)" using Cons.prems(3) by simp
    moreover have "length (buf (unregister ?s1)) + length bs \<le> cap (unregister ?s1)"
      using Cons.prems(4) by simp
    ultimately have "\<exists>srv'. fan_subs offer bs ?s1 = Inr srv'"
      using di by (intro Cons.IH) auto
    with Full lt s1 show ?thesis by simp
  next
    case Closed
    with lv[OF lb] show ?thesis by simp
  qed
qed

lemma offer_event_live: "live s \<Longrightarrow> offer_event ev s \<noteq> Closed"
  by (simp add: offer_event_def send_def live_def)

lemma offer_comment_live: "live s \<Longrightarrow> offer_comment cmt s \<noteq> Closed"
  by (simp add: offer_comment_def send_def live_def)

lemma publish_returns_with_room:
  assumes "exec NewServer xs = Inr srv" and "\<not> dead srv"
    and "length (buf (unregister srv)) + length (subscribers srv c) \<le> cap (unregister srv)"
  shows "\<exists>srv'. Publish srv [c] ev = Inr srv'"
proof -
  have i: "hub_inv srv" using assms(1) by (rule reachable_inv)
  from hub_inv_alive[OF i assms(2)] have io: "inboxes_open srv" and ok: "subs_ok srv"
    by simp_all
  have lv: "\<And>s. live s \<Longrightarrow> offer_event ev s \<noteq> Closed" by (rule offer_event_live)
  have mem: "\<forall>a \<in> set (subscribers srv c). a < length (heap srv) \<and> live (heap srv ! a)"
    using subs_ok_member[OF ok] by blast
  have op: "\<not> closed (unregister srv)" using io by (simp add: inboxes_open_def)
  from fan_subs_room[where offer = "offer_event ev", OF lv mem subs_ok_distinct[OF ok] op assms(3)]
  obtain srv' where "fan_subs (offer_event ev) (subscribers srv c) srv = Inr srv'"
    by blast
  with io show ?thesis by (simp add: Publish_def run_pub_def inboxes_open_def)
qed

lemma publish_no_silent_drop:
  assumes "exec NewServer xs = Inr srv"
    and "Publish srv [c] ev = Inr srv'"
    and "a \<in> set (subscribers srv c)"
  shows "(length (buf (out (heap srv ! a))) < cap (out (heap srv ! a))
          \<and> heap srv' ! a =
              (heap srv ! a)\<lparr>out := (out (heap srv ! a))\<lparr>buf := buf (out (heap srv ! a)) @ [ev]\<rparr>\<rparr>)
       \<or> (length (buf (out (heap srv ! a))) \<ge> cap (out (heap srv ! a))
          \<and> heap srv' ! a = heap srv ! a
          \<and> a \<in> set (buf (unregister srv')))"
proof -
  have nd: "\<not> dead srv" using assms(1,2) by (rule reachable_Publish_alive)
  have i: "hub_inv srv" using assms(1) by (rule reachable_inv)
  from hub_inv_alive[OF i nd] have ok: "subs_ok srv" by simp
  from assms(2) have "fan_subs (offer_event ev) (subscribers srv c) srv = Inr srv'"
    by (auto simp: Publish_def run_pub_def split: if_splits sum.splits)
  from fan_subs_no_silent_drop[OF this subs_ok_distinct[OF ok] assms(3)]
  show ?thesis
    by (auto simp: offer_event_def send_def split: if_splits)
qed

section \<open>The claims\<close>

text \<open>
  C1. For every Publish and PublishComment the hub offers the value to every subscriber
  of each named channel without blocking on the subscriber's queue; when the queue is
  full the publish is said not to block the actor and to trigger an Unregister of that
  subscriber. The code sends the subscriber on \<^verbatim>\<open>srv.unregister\<close>, whose buffer
  holds two pointers and which only the actor itself empties: with three subscribers of
  one channel whose queues are full, the second publish leaves the actor waiting for ever
  on its own inbox.
\<close>

theorem publish_blocks_actor:
  "exec (NewServer :: nat server)
     [SetBufferSize 1, DoSubscribe ''t'' [], DoSubscribe ''t'' [], DoSubscribe ''t'' [],
      DoPublish [''t''] 1]
     = Inr (after [SetBufferSize 1, DoSubscribe ''t'' [], DoSubscribe ''t'' [],
                   DoSubscribe ''t'' [], DoPublish [''t''] 1])
   \<and> map (\<lambda>s. buf (out s))
        (heap (after [SetBufferSize 1, DoSubscribe ''t'' [], DoSubscribe ''t'' [],
                      DoSubscribe ''t'' [], DoPublish [''t''] (1::nat)])) = [[1], [1], [1]]
   \<and> buf (unregister (after [SetBufferSize 1, DoSubscribe ''t'' [], DoSubscribe ''t'' [],
                              DoSubscribe ''t'' [], DoPublish [''t''] (1::nat)])) = []
   \<and> Publish (after [SetBufferSize 1, DoSubscribe ''t'' [], DoSubscribe ''t'' [],
                      DoSubscribe ''t'' [], DoPublish [''t''] (1::nat)]) [''t''] 2
     = Inl ActorBlockedForever
   \<and> PublishComment
        (after [SetBufferSize 1, DoSubscribe ''t'' [], DoSubscribe ''t'' [],
                DoSubscribe ''t'' [], DoPublishComment [''t''] ''one'' :: nat op])
        [''t''] ''two''
     = Inl ActorBlockedForever"
  by (simp add: after_def run_defs)

text \<open>
  C2. Unregister is said to be idempotent. In the code the second Unregister of one
  subscription closes its queues a second time, which panics. In the run below the
  publish path asks for the Unregister of a subscriber whose queue is full, the handler
  of the same subscriber asks for it on disconnection, and \<^verbatim>\<open>run\<close> receives both.
\<close>

theorem unregister_twice_panics:
  "exec (NewServer :: nat server)
     [SetBufferSize 1, DoSubscribe ''t'' [], DoPublish [''t''] 1, DoPublish [''t''] 2,
      HandlerUnregister 0, ActorUnregister]
     = Inr (after [SetBufferSize 1, DoSubscribe ''t'' [], DoPublish [''t''] 1,
                   DoPublish [''t''] 2, HandlerUnregister 0, ActorUnregister])
   \<and> buf (unregister (after [SetBufferSize 1, DoSubscribe ''t'' [], DoPublish [''t''] 1,
                   DoPublish [''t''] (2::nat), HandlerUnregister 0, ActorUnregister])) = [0]
   \<and> recv_unregister (after [SetBufferSize 1, DoSubscribe ''t'' [], DoPublish [''t''] 1,
                   DoPublish [''t''] (2::nat), HandlerUnregister 0, ActorUnregister])
     = Inl CloseOfClosedChannel
   \<and> run_unregister (after [DoSubscribe ''t'' [] :: nat op]) 0
     = Inr (after [DoSubscribe ''t'' [], HandlerUnregister 0, ActorUnregister :: nat op])
   \<and> run_unregister
        (after [DoSubscribe ''t'' [], HandlerUnregister 0, ActorUnregister :: nat op]) 0
     = Inl CloseOfClosedChannel"
  by (simp add: after_def run_defs)

text \<open>
  C3. After Close every later operation on the hub is said to be a no-op without fault.
  \<^verbatim>\<open>run\<close> closes every inbox before it returns, so each later Register, Publish,
  PublishComment, CloseChannel, Close and handler-side Unregister sends on a closed
  channel and panics; only the handler, which reads \<open>dead\<close> first, answers without
  fault.
\<close>

theorem operations_after_close_panic:
  "Close (after [DoSubscribe ''t'' [] :: nat op])
     = Inr (after [DoSubscribe ''t'' [], DoClose])
   \<and> dead (after [DoSubscribe ''t'' [], DoClose :: nat op])
   \<and> destroyed (heap (after [DoSubscribe ''t'' [], DoClose :: nat op]) ! 0)
   \<and> Handler (after [DoSubscribe ''t'' [], DoClose :: nat op]) ''t'' [] = NoLongerAvailable
   \<and> Publish (after [DoSubscribe ''t'' [], DoClose]) [''t''] (1::nat)
     = Inl SendOnClosedChannel
   \<and> PublishComment (after [DoSubscribe ''t'' [], DoClose :: nat op]) [''t''] ''hello''
     = Inl SendOnClosedChannel
   \<and> Register (after [DoSubscribe ''t'' [], DoClose :: nat op]) ''t'' (\<lambda>c l. [])
     = Inl SendOnClosedChannel
   \<and> CloseChannel (after [DoSubscribe ''t'' [], DoClose :: nat op]) ''t''
     = Inl SendOnClosedChannel
   \<and> Close (after [DoSubscribe ''t'' [], DoClose :: nat op]) = Inl SendOnClosedChannel
   \<and> handler_unregister (after [DoSubscribe ''t'' [], DoClose :: nat op]) 0
     = Inl SendOnClosedChannel"
  by (simp add: after_def run_defs)



text \<open>
  C5. A replay goroutine is said to stop silently when its subscription is destroyed while
  it is forwarding. In the code \<^verbatim>\<open>replay\<close> sends on \<^verbatim>\<open>sub.out\<close> with a plain
  send and nothing recovers: after the subscription has been unregistered, the next
  event of the repository is sent on a closed channel, which panics.
\<close>

theorem replay_after_destroy_panics:
  "exec (NewServer :: nat server)
     [DoRegister ''news'' (\<lambda>c l. [6, 7]), DoSubscribe ''news'' ''5'', ReplayStep 0,
      HandlerUnregister 0, ActorUnregister]
     = Inr (after [DoRegister ''news'' (\<lambda>c l. [6, 7]), DoSubscribe ''news'' ''5'',
                   ReplayStep 0, HandlerUnregister 0, ActorUnregister])
   \<and> replays (after [DoRegister ''news'' (\<lambda>c l. [6, 7]), DoSubscribe ''news'' ''5'',
                   ReplayStep 0, HandlerUnregister 0, ActorUnregister :: nat op])
     = [(0, [7])]
   \<and> buf (out (heap (after [DoRegister ''news'' (\<lambda>c l. [6, 7]),
                   DoSubscribe ''news'' ''5'', ReplayStep 0, HandlerUnregister 0,
                   ActorUnregister :: nat op]) ! 0)) = [6]
   \<and> destroyed (heap (after [DoRegister ''news'' (\<lambda>c l. [6, 7]),
                   DoSubscribe ''news'' ''5'', ReplayStep 0, HandlerUnregister 0,
                   ActorUnregister :: nat op]) ! 0)
   \<and> replay_step (after [DoRegister ''news'' (\<lambda>c l. [6, 7]),
                   DoSubscribe ''news'' ''5'', ReplayStep 0, HandlerUnregister 0,
                   ActorUnregister :: nat op]) 0
     = Inl SendOnClosedChannel"
  by (simp add: after_def run_defs)



text \<open>
  C7. A request that the handler admits (hub and channel not dead, a buffer size that is
  not negative) always yields a subscription that is live and in the subscriber set of
  its channel, whether or not a repository is registered. A replay goroutine is started
  for it exactly when \<^verbatim>\<open>ReplayAll\<close> is set or the last event id is not empty, and a
  repository is registered for the channel; otherwise none is started.
\<close>

theorem replay_spawned_iff:
  assumes "\<not> dead srv" and "\<not> deadChannels srv c" and "0 \<le> BufferSize srv"
    and "\<not> subs_closed srv"
  shows "\<exists>srv'. Handler srv c lastId = Streaming srv' (length (heap srv))
           \<and> replays srv' =
               replays srv @
                 (if ReplayAll srv \<or> lastId \<noteq> [] then
                    (case repos srv c of
                       None \<Rightarrow> []
                     | Some repo \<Rightarrow> [(length (heap srv), repo c lastId)])
                  else [])
           \<and> (length (replays srv') = Suc (length (replays srv)))
               = ((ReplayAll srv \<or> lastId \<noteq> []) \<and> repos srv c \<noteq> None)
           \<and> length (heap srv) \<in> set (subscribers srv' c)
           \<and> live (heap srv' ! length (heap srv))
           \<and> channel (heap srv' ! length (heap srv)) = c
           \<and> lastEventId (heap srv' ! length (heap srv)) = lastId"
  using assms
  by (auto simp: Handler_def make_chan_def run_subs_def Let_def subscribers_def
                 update_conv' live_def nth_append
           split: option.splits)

theorem replay_spawned_iff_witness:
  "\<not> dead (after [DoRegister ''news'' (\<lambda>c l. [6, 7 :: nat])])
   \<and> \<not> deadChannels (after [DoRegister ''news'' (\<lambda>c l. [6, 7 :: nat])]) ''news''
   \<and> 0 \<le> BufferSize (after [DoRegister ''news'' (\<lambda>c l. [6, 7 :: nat])])
   \<and> \<not> subs_closed (after [DoRegister ''news'' (\<lambda>c l. [6, 7 :: nat])])
   \<and> Handler (after [DoRegister ''news'' (\<lambda>c l. [6, 7 :: nat])]) ''news'' ''5''
     = Streaming (after [DoRegister ''news'' (\<lambda>c l. [6, 7]), DoSubscribe ''news'' ''5'']) 0
   \<and> replays (after [DoRegister ''news'' (\<lambda>c l. [6, 7 :: nat]), DoSubscribe ''news'' ''5''])
     = [(0, [6, 7])]
   \<and> live (heap (after [DoRegister ''news'' (\<lambda>c l. [6, 7 :: nat]),
                        DoSubscribe ''news'' ''5'']) ! 0)"
proof -
  let ?xs = "[DoRegister ''news'' (\<lambda>c l. [6, 7])] :: nat op list"
  let ?zs = "[DoRegister ''news'' (\<lambda>c l. [6, 7]), DoSubscribe ''news'' ''5''] :: nat op list"
  have h1: "\<not> dead (after ?xs)" by (simp add: after_def run_defs)
  have h2: "\<not> deadChannels (after ?xs) ''news''" by (simp add: after_def run_defs)
  have h3: "0 \<le> BufferSize (after ?xs)" by (simp add: after_def run_defs)
  have h4: "\<not> subs_closed (after ?xs)" by (simp add: after_def run_defs)
  have h5: "Handler (after ?xs) ''news'' ''5'' = Streaming (after ?zs) 0"
    by (simp add: after_def run_defs)
  have h6: "length (heap (after ?xs)) = 0" "ReplayAll (after ?xs) = False"
    "repos (after ?xs) ''news'' = Some (\<lambda>c l. [6, 7])" "replays (after ?xs) = []"
    by (simp_all add: after_def run_defs)
  from replay_spawned_iff[OF h1 h2 h3 h4, of "''5''"] obtain srv' where
    a: "Handler (after ?xs) ''news'' ''5'' = Streaming srv' (length (heap (after ?xs)))"
    and b: "replays srv' =
               replays (after ?xs) @
                 (if ReplayAll (after ?xs) \<or> ''5'' \<noteq> [] then
                    (case repos (after ?xs) ''news'' of
                       None \<Rightarrow> []
                     | Some repo \<Rightarrow> [(length (heap (after ?xs)), repo ''news'' ''5'')])
                  else [])"
    and c: "live (heap srv' ! length (heap (after ?xs)))"
    by blast
  from a h5 have e: "srv' = after ?zs" by simp
  from b h6 have "replays srv' = [(0, [6, 7])]" by simp
  with c h6(1) h1 h2 h3 h4 h5 show ?thesis unfolding e by simp
qed

text \<open>
  C8. Channel isolation. In a state reached by a run of the hub, a Publish that returns
  leaves unchanged every subscription whose channel it does not name, and more generally
  every subscription that is in the subscriber set of none of the channels named; it
  changes no comment queue and no subscriber set.
\<close>

theorem channel_isolation:
  assumes "exec NewServer xs = Inr srv"
    and "Publish srv cs ev = Inr srv'"
    and "b < length (heap srv)"
    and "channel (heap srv ! b) \<notin> set cs"
  shows "heap srv' ! b = heap srv ! b
    \<and> (\<forall>a. (\<forall>c \<in> set cs. a \<notin> set (subscribers srv c)) \<longrightarrow> heap srv' ! a = heap srv ! a)
    \<and> (\<forall>a. cout (heap srv' ! a) = cout (heap srv ! a))
    \<and> subs srv' = subs srv"
proof -
  from assms(2) have f: "fan_channels (offer_event ev) cs srv = Inr srv'"
    by (simp add: Publish_def run_pub_def split: if_splits)
  have k: "\<And>s s'. offer_event ev s = Sent s' \<Longrightarrow> same_kind s s'"
    by (rule offer_event_kind)
  have k2: "\<And>s s'. offer_event ev s = Sent s' \<Longrightarrow> cout s' = cout s"
    by (rule offer_event_cout)
  have all: "\<forall>a. (\<forall>c \<in> set cs. a \<notin> set (subscribers srv c)) \<longrightarrow> heap srv' ! a = heap srv ! a"
    using fan_channels_untouched[OF k f] by blast
  have nd: "\<not> dead srv" using assms(1,2) by (rule reachable_Publish_alive)
  have "\<forall>c \<in> set cs. b \<notin> set (subscribers srv c)"
  proof
    fix c assume c: "c \<in> set cs"
    show "b \<notin> set (subscribers srv c)"
    proof
      assume "b \<in> set (subscribers srv c)"
      from reachable_member[OF assms(1) nd this] c assms(4) show False by simp
    qed
  qed
  with all have "heap srv' ! b = heap srv ! b" by blast
  moreover have "\<forall>a. cout (heap srv' ! a) = cout (heap srv ! a)"
    using fan_channels_field[of "offer_event ev" cout, OF k2 f] by blast
  moreover have "subs srv' = subs srv"
    using fan_channels_frame[OF k f] by (simp add: hub_frame_def)
  ultimately show ?thesis using all by blast
qed

theorem channel_isolation_witness:
  "exec (NewServer :: nat server) [SetBufferSize 1, DoSubscribe ''a'' [], DoSubscribe ''b'' []]
     = Inr (after [SetBufferSize 1, DoSubscribe ''a'' [], DoSubscribe ''b'' []])
   \<and> Publish (after [SetBufferSize 1, DoSubscribe ''a'' [], DoSubscribe ''b'' []]) [''a''] (7::nat)
     = Inr (after [SetBufferSize 1, DoSubscribe ''a'' [], DoSubscribe ''b'' [],
                   DoPublish [''a''] 7])
   \<and> 1 < length (heap (after [SetBufferSize 1, DoSubscribe ''a'' [],
                               DoSubscribe ''b'' [] :: nat op]))
   \<and> channel (heap (after [SetBufferSize 1, DoSubscribe ''a'' [],
                            DoSubscribe ''b'' [] :: nat op]) ! 1) = ''b''
   \<and> buf (out (heap (after [SetBufferSize 1, DoSubscribe ''a'' [], DoSubscribe ''b'' [],
                             DoPublish [''a''] (7::nat)]) ! 0)) = [7]
   \<and> heap (after [SetBufferSize 1, DoSubscribe ''a'' [], DoSubscribe ''b'' [],
                   DoPublish [''a''] (7::nat)]) ! 1
     = heap (after [SetBufferSize 1, DoSubscribe ''a'' [], DoSubscribe ''b'' []]) ! 1"
proof -
  let ?xs = "[SetBufferSize 1, DoSubscribe ''a'' [], DoSubscribe ''b'' []] :: nat op list"
  let ?zs = "[SetBufferSize 1, DoSubscribe ''a'' [], DoSubscribe ''b'' [],
              DoPublish [''a''] 7] :: nat op list"
  have h1: "exec NewServer ?xs = Inr (after ?xs)" by (simp add: after_def run_defs)
  have h2: "Publish (after ?xs) [''a''] 7 = Inr (after ?zs)" by (simp add: after_def run_defs)
  have h3: "1 < length (heap (after ?xs))" by (simp add: after_def run_defs)
  have h4: "channel (heap (after ?xs) ! 1) \<notin> set [''a'']" by (simp add: after_def run_defs)
  have h5: "channel (heap (after ?xs) ! 1) = ''b''" by (simp add: after_def run_defs)
  have h6: "buf (out (heap (after ?zs) ! 0)) = [7]" by (simp add: after_def run_defs)
  from channel_isolation[OF h1 h2 h3 h4] h1 h2 h3 h5 h6 show ?thesis by blast
qed

text \<open>
  C9. A new server has \<^verbatim>\<open>BufferSize\<close> 128, and the event queue and the comment queue
  of every subscription the handler creates have the capacity \<^verbatim>\<open>BufferSize\<close> of the
  server at that moment, and are empty.
\<close>

theorem buffer_size_capacity:
  assumes "Handler srv c lastId = Streaming srv' a"
  shows "BufferSize (NewServer :: 'e server) = 128
       \<and> int (cap (out (heap srv' ! a))) = BufferSize (srv :: 'e server)
       \<and> int (cap (cout (heap srv' ! a))) = BufferSize srv
       \<and> buf (out (heap srv' ! a)) = [] \<and> buf (cout (heap srv' ! a)) = []"
  using Handler_Streaming[OF assms]
  by (simp add: NewServer_def run_subs_fields)

theorem buffer_size_capacity_witness:
  "Handler (after [DoSubscribe ''u'' [] :: nat op]) ''time'' []
     = Streaming (after [DoSubscribe ''u'' [], DoSubscribe ''time'' []]) 1
   \<and> BufferSize (NewServer :: nat server) = 128
   \<and> BufferSize (after [DoSubscribe ''u'' [] :: nat op]) = 128
   \<and> cap (out (heap (after [DoSubscribe ''u'' [], DoSubscribe ''time'' [] :: nat op]) ! 1)) = 128
   \<and> cap (cout (heap (after [DoSubscribe ''u'' [], DoSubscribe ''time'' [] :: nat op]) ! 1)) = 128
   \<and> Handler (after [SetBufferSize 3 :: nat op]) ''time'' []
     = Streaming (after [SetBufferSize 3, DoSubscribe ''time'' []]) 0
   \<and> cap (out (heap (after [SetBufferSize 3, DoSubscribe ''time'' [] :: nat op]) ! 0)) = 3
   \<and> cap (cout (heap (after [SetBufferSize 3, DoSubscribe ''time'' [] :: nat op]) ! 0)) = 3"
proof -
  have h1: "Handler (after [DoSubscribe ''u'' [] :: nat op]) ''time'' []
     = Streaming (after [DoSubscribe ''u'' [], DoSubscribe ''time'' []]) 1"
    by (simp add: after_def run_defs)
  have h2: "Handler (after [SetBufferSize 3 :: nat op]) ''time'' []
     = Streaming (after [SetBufferSize 3, DoSubscribe ''time'' []]) 0"
    by (simp add: after_def run_defs)
  have b1: "BufferSize (after [DoSubscribe ''u'' [] :: nat op]) = 128"
    and b2: "BufferSize (after [SetBufferSize 3 :: nat op]) = 3"
    by (simp_all add: after_def run_defs)
  from buffer_size_capacity[OF h1] buffer_size_capacity[OF h2] h1 h2 b1 b2
  show ?thesis by simp
qed

text \<open>
  C10. A subscription that is not destroyed and whose channel has no subscriber set in
  the map of the hub is unregistered without fault: both its queues are closed, and the
  subscriber sets, the repositories, the dead markers and every other subscription are
  as before.
\<close>

theorem unregister_without_subscriber_set:
  assumes "a < length (heap srv)"
    and "live (heap srv ! a)"
    and "map_of (subs srv) (channel (heap srv ! a)) = None"
  shows "\<exists>srv'. run_unregister srv a = Inr srv'
           \<and> destroyed (heap srv' ! a)
           \<and> subs srv' = subs srv
           \<and> repos srv' = repos srv
           \<and> deadChannels srv' = deadChannels srv
           \<and> (\<forall>b. b \<noteq> a \<longrightarrow> heap srv' ! b = heap srv ! b)"
  using assms
  by (simp add: run_unregister_def destroy_at_def destroy_def close_chan_def live_def
                destroyed_def delete_sub_def)

theorem unregister_without_subscriber_set_witness:
  "0 < length (heap (NewServer\<lparr>heap := [\<lparr>channel = ''t'', lastEventId = [],
          out = \<lparr>buf = [4::nat], cap = 1, closed = False\<rparr>,
          cout = \<lparr>buf = [], cap = 1, closed = False\<rparr>\<rparr>]\<rparr>))
   \<and> live (heap (NewServer\<lparr>heap := [\<lparr>channel = ''t'', lastEventId = [],
          out = \<lparr>buf = [4::nat], cap = 1, closed = False\<rparr>,
          cout = \<lparr>buf = [], cap = 1, closed = False\<rparr>\<rparr>]\<rparr>) ! 0)
   \<and> map_of (subs (NewServer\<lparr>heap := [\<lparr>channel = ''t'', lastEventId = [],
          out = \<lparr>buf = [4::nat], cap = 1, closed = False\<rparr>,
          cout = \<lparr>buf = [], cap = 1, closed = False\<rparr>\<rparr>]\<rparr>)) ''t'' = None
   \<and> run_unregister (NewServer\<lparr>heap := [\<lparr>channel = ''t'', lastEventId = [],
          out = \<lparr>buf = [4::nat], cap = 1, closed = False\<rparr>,
          cout = \<lparr>buf = [], cap = 1, closed = False\<rparr>\<rparr>]\<rparr>) 0
     = Inr (NewServer\<lparr>heap := [\<lparr>channel = ''t'', lastEventId = [],
          out = \<lparr>buf = [4::nat], cap = 1, closed = True\<rparr>,
          cout = \<lparr>buf = [], cap = 1, closed = True\<rparr>\<rparr>]\<rparr>)"
proof -
  let ?srv = "NewServer\<lparr>heap := [\<lparr>channel = ''t'', lastEventId = [],
          out = \<lparr>buf = [4::nat], cap = 1, closed = False\<rparr>,
          cout = \<lparr>buf = [], cap = 1, closed = False\<rparr>\<rparr>]\<rparr>"
  have h1: "0 < length (heap ?srv)" by simp
  have h2: "live (heap ?srv ! 0)" by (simp add: live_def)
  have h3: "map_of (subs ?srv) (channel (heap ?srv ! 0)) = None" by (simp add: NewServer_def)
  have h4: "run_unregister ?srv 0 = Inr (NewServer\<lparr>heap := [\<lparr>channel = ''t'', lastEventId = [],
          out = \<lparr>buf = [4::nat], cap = 1, closed = True\<rparr>,
          cout = \<lparr>buf = [], cap = 1, closed = True\<rparr>\<rparr>]\<rparr>)"
    by (simp add: run_defs)
  from unregister_without_subscriber_set[OF h1 h2 h3] h1 h2 h3 h4 show ?thesis
    by (simp add: NewServer_def)
qed

end
